theory Spec2Isabelle
  imports Main "HOL-Library.Multiset" "HOL-Library.Sublist"
begin

section \<open>Data model of \<open>gtsam/linear/SubgraphSolver.cpp\<close>\<close>

text \<open>
  A \<open>Key\<close> identifies one unknown. The solver only compares keys for equality, so the
  identifier is a natural number here.
\<close>

type_synonym Key = nat

text \<open>
  A factor as \<open>splitGraph\<close> sees it: the key vector returned by \<open>factor->keys()\<close>, and
  the rest of the factor (its coefficients and right-hand side), which the splitter
  never inspects and which is therefore an opaque payload.
\<close>

record 'a Factor =
  keys :: "Key list"
  payload :: 'a

text \<open>A \<open>GaussianFactorGraph\<close> is the sequence of its factors, in insertion order.\<close>

type_synonym 'a GaussianFactorGraph = "'a Factor list"

text \<open>
  The two ways in which the loop of \<open>splitGraph\<close> can leave its normal path:
  \<^item> \<open>MalformedFactor\<close> is the \<open>runtime_error\<close> thrown by the sanity check
    \<open>keys.size() > 2\<close>;
  \<^item> \<open>KeyIndexOutOfRange\<close> stands for an access \<open>keys[i]\<close> with \<open>i\<close> beyond the end of
    the key vector, which C++ leaves undefined.
\<close>

datatype error = MalformedFactor | KeyIndexOutOfRange

definition key_at :: "Key list \<Rightarrow> nat \<Rightarrow> Key option" where
  "key_at ks i = (if i < length ks then Some (ks ! i) else None)"

section \<open>Disjoint-set forest\<close>

text \<open>
  Modelled from the spec: the class \<open>DSFMap\<close> of \<open>gtsam_unstable/base/DSFMap.h\<close>, which
  \<open>splitGraph\<close> includes, is not among the source files. Its state is a flat mapping from
  a key to the representative of the key's set.
\<close>

type_synonym DSFMap = "Key \<rightharpoonup> Key"

text \<open>Modelled from the spec: a freshly constructed \<open>DSFMap\<close> has seen no key.\<close>

definition dsf_empty :: DSFMap where
  "dsf_empty = Map.empty"

text \<open>
  Modelled from the spec: \<open>find(key)\<close> returns the representative of the key's set; a key
  not seen before becomes its own representative (lazy initialisation), which changes the
  state, so the state is returned with the representative.
\<close>

definition dsf_find :: "DSFMap \<Rightarrow> Key \<Rightarrow> Key \<times> DSFMap" where
  "dsf_find d k = (case d k of None \<Rightarrow> (k, d(k \<mapsto> k)) | Some r \<Rightarrow> (r, d))"

text \<open>
  Modelled from the spec: \<open>merge(a, b)\<close> unites the sets of \<open>a\<close> and \<open>b\<close>, after which
  \<open>find(a) = find(b)\<close>. The spec leaves open which representative survives; here the one
  of \<open>a\<close> does.
\<close>

definition dsf_merge :: "DSFMap \<Rightarrow> Key \<Rightarrow> Key \<Rightarrow> DSFMap" where
  "dsf_merge d a b =
     (let (ra, d1) = dsf_find d a;
          (rb, d2) = dsf_find d1 b
      in (\<lambda>k. case d2 k of None \<Rightarrow> None
                | Some r \<Rightarrow> Some (if r = rb then ra else r)))"

text \<open>The representative alone, without the state.\<close>

definition dsf_rep :: "DSFMap \<Rightarrow> Key \<Rightarrow> Key" where
  "dsf_rep d k = fst (dsf_find d k)"

section \<open>The graph splitter\<close>

text \<open>
  The state of the loop of \<open>splitGraph\<close>: the forest \<open>dsf\<close> and the two output graphs
  \<open>tree\<close> and \<open>constraints\<close>, in this order.
\<close>

type_synonym 'a split_state = "DSFMap \<times> 'a GaussianFactorGraph \<times> 'a GaussianFactorGraph"

text \<open>
  One iteration of the loop, lines 141 to 159. The operands of
  \<open>dsf.find(keys[0]) != dsf.find(keys[1])\<close> are evaluated from left to right; the other
  order differs only in the order of two lazy initialisations.
\<close>

fun splitStep :: "'a split_state \<Rightarrow> 'a Factor \<Rightarrow> error + 'a split_state" where
  "splitStep (dsf, tree, constraints) factor =
     (let ks = keys factor in
      if length ks > 2 then Inl MalformedFactor
      else if length ks = 1 then Inr (dsf, tree @ [factor], constraints)
      else
        (case key_at ks 0 of
           None \<Rightarrow> Inl KeyIndexOutOfRange
         | Some k0 \<Rightarrow>
            (case key_at ks 1 of
               None \<Rightarrow> Inl KeyIndexOutOfRange
             | Some k1 \<Rightarrow>
                (let (r0, dsf1) = dsf_find dsf k0;
                     (r1, dsf2) = dsf_find dsf1 k1
                 in if r0 \<noteq> r1
                    then Inr (dsf_merge dsf2 k0 k1, tree @ [factor], constraints)
                    else Inr (dsf2, tree, constraints @ [factor])))))"

text \<open>The loop over the factors, in input order; it stops at the first error.\<close>

fun splitLoop :: "'a split_state \<Rightarrow> 'a GaussianFactorGraph \<Rightarrow> error + 'a split_state" where
  "splitLoop s [] = Inr s"
| "splitLoop s (factor # rest) =
     (case splitStep s factor of
        Inl e \<Rightarrow> Inl e
      | Inr s' \<Rightarrow> splitLoop s' rest)"

text \<open>\<open>SubgraphSolver::splitGraph\<close>: the pair (tree, constraints), or the error.\<close>

definition splitGraph ::
  "'a GaussianFactorGraph \<Rightarrow> error + ('a GaussianFactorGraph \<times> 'a GaussianFactorGraph)" where
  "splitGraph factorGraph =
     (case splitLoop (dsf_empty, [], []) factorGraph of
        Inl e \<Rightarrow> Inl e
      | Inr (dsf, tree, constraints) \<Rightarrow> Inr (tree, constraints))"

section \<open>The solver\<close>

text \<open>
  A \<open>VectorValues\<close> maps keys to vectors. The vectors are opaque: nothing below computes
  with their entries.
\<close>

type_synonym 'v VectorValues = "Key \<rightharpoonup> 'v"

text \<open>The members \<open>parameters_\<close>, \<open>ordering_\<close> and \<open>pc_\<close> of \<open>SubgraphSolver\<close>.\<close>

record ('par, 'ord, 'pc) SubgraphSolver =
  parameters :: 'par
  ordering :: 'ord
  pc :: 'pc

text \<open>
  \<open>SubgraphSolver::optimize()\<close>, lines 86 to 90. The function template
  \<open>conjugateGradients\<close> and the members \<open>zero\<close> and \<open>x\<close> of \<open>SubgraphPreconditioner\<close> are
  declared in headers that are not among the source files; they are parameters here.
\<close>

definition optimize ::
  "('pc \<Rightarrow> 'v VectorValues \<Rightarrow> 'par \<Rightarrow> 'v VectorValues) \<Rightarrow> ('pc \<Rightarrow> 'v VectorValues) \<Rightarrow>
   ('pc \<Rightarrow> 'v VectorValues \<Rightarrow> 'v VectorValues) \<Rightarrow>
   ('par, 'ord, 'pc) SubgraphSolver \<Rightarrow> 'v VectorValues" where
  "optimize conjugateGradients zero x solver =
     (let ybar = conjugateGradients (pc solver) (zero (pc solver)) (parameters solver)
      in x (pc solver) ybar)"

text \<open>\<open>SubgraphSolver::optimize(const VectorValues &initial)\<close>, lines 93 to 96.\<close>

definition optimize_initial ::
  "('pc \<Rightarrow> 'v VectorValues \<Rightarrow> 'par \<Rightarrow> 'v VectorValues) \<Rightarrow> ('pc \<Rightarrow> 'v VectorValues) \<Rightarrow>
   ('pc \<Rightarrow> 'v VectorValues \<Rightarrow> 'v VectorValues) \<Rightarrow>
   ('par, 'ord, 'pc) SubgraphSolver \<Rightarrow> 'v VectorValues \<Rightarrow> 'v VectorValues" where
  "optimize_initial conjugateGradients zero x solver initial =
     optimize conjugateGradients zero x solver"

text \<open>
  \<open>SubgraphSolver::optimize(gfg, keyInfo, lambda, initial)\<close>, lines 166 to 170: a
  default-constructed \<open>VectorValues\<close>, which has no entry.
\<close>

definition optimize_lambda ::
  "'a GaussianFactorGraph \<Rightarrow> 'ki \<Rightarrow> (Key \<rightharpoonup> 'v) \<Rightarrow> 'v VectorValues \<Rightarrow> 'v VectorValues" where
  "optimize_lambda gfg keyInfo lambda initial = Map.empty"

section \<open>Notions of the specification\<close>

text \<open>A factor is unary when it has one key and binary when it has two.\<close>

definition is_unary :: "'a Factor \<Rightarrow> bool" where
  "is_unary f = (length (keys f) = 1)"

definition is_binary :: "'a Factor \<Rightarrow> bool" where
  "is_binary f = (length (keys f) = 2)"

text \<open>The edges of the graph induced by the binary factors: one pair of keys each.\<close>

definition binaryEdges :: "'a GaussianFactorGraph \<Rightarrow> (Key \<times> Key) set" where
  "binaryEdges g = set (concat (map (\<lambda>f. case keys f of [a, b] \<Rightarrow> [(a, b)] | _ \<Rightarrow> []) g))"

text \<open>The variables touched by a binary factor.\<close>

definition binaryVars :: "'a GaussianFactorGraph \<Rightarrow> Key set" where
  "binaryVars g = fst ` binaryEdges g \<union> snd ` binaryEdges g"

text \<open>Two keys are connected when a path of binary factors, in any direction, joins them.\<close>

definition connected :: "'a GaussianFactorGraph \<Rightarrow> (Key \<times> Key) set" where
  "connected g = (binaryEdges g \<union> (binaryEdges g)\<inverse>)\<^sup>*"

text \<open>The connected components of the induced graph: the classes of its variables.\<close>

definition components :: "'a GaussianFactorGraph \<Rightarrow> Key set set" where
  "components g = binaryVars g // connected g"

section \<open>Invariant of the loop\<close>

text \<open>
  What the forest \<open>d\<close> knows about the tree \<open>t\<close> built so far: its keys are finitely
  many, representatives are keys of the forest, two keys with the same representative are
  connected by binary factors of the tree, and every binary factor of the tree has removed
  one representative.
\<close>

definition forest_inv :: "'a GaussianFactorGraph \<Rightarrow> DSFMap \<Rightarrow> bool" where
  "forest_inv t d =
     (finite (dom d)
      \<and> dsf_rep d ` dom d \<subseteq> dom d
      \<and> (\<forall>x\<in>dom d. \<forall>y\<in>dom d. dsf_rep d x = dsf_rep d y \<longrightarrow> (x, y) \<in> connected t)
      \<and> length (filter is_binary t) + card (dsf_rep d ` dom d) = card (dom d))"

text \<open>
  The state of the loop after the factors \<open>seen\<close>: the forest has seen the keys of the
  binary factors, the tree is made of factors that were seen, and the two keys of every
  binary factor seen have the same representative.
\<close>

definition split_inv :: "'a GaussianFactorGraph \<Rightarrow> 'a split_state \<Rightarrow> bool" where
  "split_inv seen s =
     (case s of (d, t, c) \<Rightarrow>
        forest_inv t d
        \<and> dom d = binaryVars seen
        \<and> binaryEdges t \<subseteq> binaryEdges seen
        \<and> (\<forall>(a, b)\<in>binaryEdges seen. dsf_rep d a = dsf_rep d b))"

section \<open>Properties of one step and of the loop\<close>

lemma splitStep_cases:
  assumes "splitStep (d, t, c) f = Inr (d', t', c')"
  shows "(t' = t @ [f] \<and> c' = c) \<or> (t' = t \<and> c' = c @ [f])"
  using assms
  by (auto simp: Let_def split: if_splits option.splits prod.splits)

lemma splitLoop_append:
  "splitLoop s (xs @ ys) =
     (case splitLoop s xs of Inl e \<Rightarrow> Inl e | Inr s' \<Rightarrow> splitLoop s' ys)"
  by (induction xs arbitrary: s) (auto split: sum.splits)

lemma splitStep_ok:
  assumes "length (keys f) = 1 \<or> length (keys f) = 2"
  shows "\<exists>s'. splitStep s f = Inr s'"
proof -
  obtain d t c where s: "s = (d, t, c)" by (cases s)
  show ?thesis using assms unfolding s
    by (auto simp: Let_def key_at_def split: prod.splits)
qed

lemma splitLoop_ok:
  assumes "\<forall>p\<in>set pre. length (keys p) = 1 \<or> length (keys p) = 2"
  shows "\<exists>s'. splitLoop s pre = Inr s'"
  using assms
proof (induction pre arbitrary: s)
  case Nil
  show ?case by (rule exI[of _ s]) simp
next
  case (Cons p pre)
  then obtain s1 where "splitStep s p = Inr s1"
    using splitStep_ok[of p s] by auto
  then show ?case using Cons by simp
qed

lemma splitStep_malformed:
  "(splitStep s f = Inl MalformedFactor) = (2 < length (keys f))"
proof -
  obtain d t c where s: "s = (d, t, c)" by (cases s)
  show ?thesis unfolding s
    by (auto simp: Let_def split: option.splits prod.splits)
qed

lemma splitStep_empty_keys:
  assumes "keys f = []"
  shows "splitStep s f = Inl KeyIndexOutOfRange"
proof -
  obtain d t c where s: "s = (d, t, c)" by (cases s)
  show ?thesis unfolding s using assms by (simp add: key_at_def)
qed

lemma splitLoop_first_bad:
  assumes "\<forall>p\<in>set pre. length (keys p) = 1 \<or> length (keys p) = 2"
    and "\<And>s'. splitStep s' f = Inl e"
  shows "splitLoop s (pre @ f # post) = Inl e"
proof -
  obtain s' where "splitLoop s pre = Inr s'"
    using splitLoop_ok[OF assms(1)] by blast
  then show ?thesis using assms(2)[of s'] by (simp add: splitLoop_append)
qed

lemma splitGraph_Inl:
  "splitLoop (dsf_empty, [], []) g = Inl e \<Longrightarrow> splitGraph g = Inl e"
  by (simp add: splitGraph_def)

lemma splitLoop_nths:
  assumes "splitLoop (d, t, c) g = Inr (d', t', c')"
  shows "\<exists>S. t' = t @ nths g S \<and> c' = c @ nths g (- S)"
  using assms
proof (induction g arbitrary: d t c)
  case Nil
  then show ?case by simp
next
  case (Cons f g)
  from Cons.prems obtain d1 t1 c1 where
    step: "splitStep (d, t, c) f = Inr (d1, t1, c1)"
    and rest: "splitLoop (d1, t1, c1) g = Inr (d', t', c')"
    by (auto simp del: splitStep.simps split: sum.splits)
  from Cons.IH[OF rest] obtain S where
    S: "t' = t1 @ nths g S" "c' = c1 @ nths g (- S)" by blast
  from splitStep_cases[OF step] show ?case
  proof
    assume "t1 = t @ [f] \<and> c1 = c"
    then have "t' = t @ nths (f # g) (insert 0 (Suc ` S))"
      and "c' = c @ nths (f # g) (- insert 0 (Suc ` S))"
      using S by (auto simp: nths_Cons image_iff intro!: arg_cong2[where f=nths])
    then show ?thesis by blast
  next
    assume "t1 = t \<and> c1 = c @ [f]"
    then have "t' = t @ nths (f # g) (Suc ` S)"
      and "c' = c @ nths (f # g) (- (Suc ` S))"
      using S by (auto simp: nths_Cons image_iff intro!: arg_cong2[where f=nths])
    then show ?thesis by blast
  qed
qed

lemma splitLoop_mset:
  assumes "splitLoop (d, t, c) g = Inr (d', t', c')"
  shows "mset t' + mset c' = mset t + mset c + mset g"
  using assms
proof (induction g arbitrary: d t c)
  case Nil
  then show ?case by simp
next
  case (Cons f g)
  from Cons.prems obtain d1 t1 c1 where
    step: "splitStep (d, t, c) f = Inr (d1, t1, c1)"
    and rest: "splitLoop (d1, t1, c1) g = Inr (d', t', c')"
    by (auto simp del: splitStep.simps split: sum.splits)
  from splitStep_cases[OF step] Cons.IH[OF rest] show ?case by auto
qed

lemma nths_compl_disjoint:
  assumes "distinct g"
  shows "set (nths g S) \<inter> set (nths g (- S)) = {}"
  using assms by (auto simp: set_nths nth_eq_iff_index_eq)

lemma splitGraph_Inr:
  "splitGraph g = Inr (t, c) \<Longrightarrow> \<exists>d. splitLoop (dsf_empty, [], []) g = Inr (d, t, c)"
  by (auto simp: splitGraph_def split: sum.splits)

lemma splitStep_unary:
  assumes "splitStep (d, t, c) f = Inr (d', t', c')"
  shows "filter is_unary t' = filter is_unary t @ filter is_unary [f]
       \<and> filter is_unary c' = filter is_unary c"
  using assms
  by (auto simp: Let_def is_unary_def split: if_splits option.splits prod.splits)

lemma splitLoop_unary:
  assumes "splitLoop (d, t, c) g = Inr (d', t', c')"
  shows "filter is_unary t' = filter is_unary t @ filter is_unary g
       \<and> filter is_unary c' = filter is_unary c"
  using assms
proof (induction g arbitrary: d t c)
  case Nil
  then show ?case by simp
next
  case (Cons f g)
  from Cons.prems obtain d1 t1 c1 where
    step: "splitStep (d, t, c) f = Inr (d1, t1, c1)"
    and rest: "splitLoop (d1, t1, c1) g = Inr (d', t', c')"
    by (auto simp del: splitStep.simps split: sum.splits)
  from splitStep_unary[OF step] Cons.IH[OF rest] show ?case by simp
qed

subsection \<open>Connectivity\<close>

lemma connected_refl: "(x, x) \<in> connected g"
  by (simp add: connected_def)

lemma connected_sym: "(x, y) \<in> connected g \<Longrightarrow> (y, x) \<in> connected g"
  unfolding connected_def
  using sym_rtrancl[OF sym_Un_converse] by (meson symD)

lemma connected_trans:
  "(x, y) \<in> connected g \<Longrightarrow> (y, z) \<in> connected g \<Longrightarrow> (x, z) \<in> connected g"
  unfolding connected_def by (rule rtrancl_trans)

lemma connected_edge: "(a, b) \<in> binaryEdges g \<Longrightarrow> (a, b) \<in> connected g"
  unfolding connected_def by blast

lemma connected_mono:
  assumes "binaryEdges g \<subseteq> binaryEdges h"
  shows "connected g \<subseteq> connected h"
  unfolding connected_def by (rule rtrancl_mono) (use assms in blast)

lemma connected_same_value:
  assumes "(x, y) \<in> connected g"
    and "\<And>a b. (a, b) \<in> binaryEdges g \<Longrightarrow> r a = r b"
  shows "r x = r y"
  using assms(1) unfolding connected_def
proof (induction rule: rtrancl_induct)
  case base
  show ?case by simp
next
  case (step y z)
  from step.hyps(2) have "r y = r z"
    using assms(2) by auto
  with step.IH show ?case by simp
qed

lemma connected_in_vars:
  assumes "(x, y) \<in> connected g" and "x \<noteq> y"
  shows "x \<in> binaryVars g \<and> y \<in> binaryVars g"
proof -
  let ?E = "binaryEdges g \<union> (binaryEdges g)\<inverse>"
  have d: "Domain ?E = binaryVars g"
    unfolding binaryVars_def Domain_fst[symmetric] Range_snd[symmetric] by auto
  have r: "Range ?E = binaryVars g"
    unfolding binaryVars_def Domain_fst[symmetric] Range_snd[symmetric] by auto
  from assms have xy: "(x, y) \<in> ?E\<^sup>+"
    unfolding connected_def by (simp add: rtrancl_eq_or_trancl)
  then have "x \<in> Domain (?E\<^sup>+)" by (rule DomainI)
  then have "x \<in> Domain ?E" by (simp only: trancl_domain)
  moreover from xy have "y \<in> Range (?E\<^sup>+)" by (rule RangeI)
  then have "y \<in> Range ?E" by (simp only: trancl_range)
  ultimately show ?thesis by (simp only: d r)
qed

subsection \<open>Edges of a list of factors\<close>

lemma binaryEdges_Nil: "binaryEdges [] = {}"
  by (simp add: binaryEdges_def)

lemma binaryEdges_append: "binaryEdges (g @ h) = binaryEdges g \<union> binaryEdges h"
  by (simp add: binaryEdges_def)

lemma binaryEdges_binary: "keys f = [a, b] \<Longrightarrow> binaryEdges [f] = {(a, b)}"
  by (simp add: binaryEdges_def)

lemma binaryEdges_not_binary:
  assumes "length (keys f) \<noteq> 2"
  shows "binaryEdges [f] = {}"
proof -
  have "\<not> (\<exists>a b. keys f = [a, b])" using assms by auto
  then have "(case keys f of [a, b] \<Rightarrow> [(a, b)] | _ \<Rightarrow> []) = []"
    by (simp split: list.splits)
  then show ?thesis by (simp add: binaryEdges_def)
qed

lemma binaryEdges_subset: "set g \<subseteq> set h \<Longrightarrow> binaryEdges g \<subseteq> binaryEdges h"
  by (auto simp: binaryEdges_def)

lemma binaryVars_Nil: "binaryVars [] = {}"
  by (simp add: binaryVars_def binaryEdges_Nil)

lemma binaryVars_append: "binaryVars (g @ h) = binaryVars g \<union> binaryVars h"
  by (auto simp: binaryVars_def binaryEdges_append)

lemma binaryVars_binary: "keys f = [a, b] \<Longrightarrow> binaryVars [f] = {a, b}"
  by (auto simp: binaryVars_def binaryEdges_binary)

lemma binaryVars_not_binary: "length (keys f) \<noteq> 2 \<Longrightarrow> binaryVars [f] = {}"
  by (simp add: binaryVars_def binaryEdges_not_binary)

lemma finite_binaryVars: "finite (binaryVars g)"
  unfolding binaryVars_def binaryEdges_def
  by (intro finite_UnI finite_imageI finite_set)

subsection \<open>Counting classes\<close>

lemma card_image_same_kernel:
  assumes "finite A"
    and "\<And>x y. x \<in> A \<Longrightarrow> y \<in> A \<Longrightarrow> (h x = h y) = (k x = k y)"
  shows "card (h ` A) = card (k ` A)"
  using assms
proof (induction A rule: finite_induct)
  case empty
  show ?case by simp
next
  case (insert x A)
  have IH: "card (h ` A) = card (k ` A)"
    using insert.IH insert.prems by simp
  have "(h x \<in> h ` A) = (k x \<in> k ` A)"
  proof
    assume "h x \<in> h ` A"
    then obtain y where "y \<in> A" "h x = h y" by auto
    then have "k x = k y" using insert.prems[of x y] by simp
    with \<open>y \<in> A\<close> show "k x \<in> k ` A" by auto
  next
    assume "k x \<in> k ` A"
    then obtain y where "y \<in> A" "k x = k y" by auto
    then have "h x = h y" using insert.prems[of x y] by simp
    with \<open>y \<in> A\<close> show "h x \<in> h ` A" by auto
  qed
  with IH insert.hyps show ?case
    by (simp add: card_insert_if)
qed

subsection \<open>The forest\<close>

lemma dsf_rep_alt: "dsf_rep d k = (case d k of None \<Rightarrow> k | Some r \<Rightarrow> r)"
  by (simp add: dsf_rep_def dsf_find_def split: option.splits)

lemma dsf_rep_unseen: "k \<notin> dom d \<Longrightarrow> dsf_rep d k = k"
  by (simp add: dsf_rep_alt domIff)

lemma dsf_rep_seen: "d k = Some r \<Longrightarrow> dsf_rep d k = r"
  by (simp add: dsf_rep_alt)

lemma dsf_seen_rep: "k \<in> dom d \<Longrightarrow> d k = Some (dsf_rep d k)"
  by (auto simp: dsf_rep_alt)

lemma dsf_find_eq: "dsf_find d k = (dsf_rep d k, snd (dsf_find d k))"
  by (simp add: dsf_rep_def)

lemma dsf_touch_dom: "dom (snd (dsf_find d k)) = insert k (dom d)"
  by (auto simp: dsf_find_def split: option.splits)

lemma dsf_touch_rep: "dsf_rep (snd (dsf_find d k)) x = dsf_rep d x"
  by (auto simp: dsf_rep_alt dsf_find_def split: option.splits)

lemma dsf_touch_idem:
  "k \<in> dom d \<Longrightarrow> snd (dsf_find d k) = d"
  by (auto simp: dsf_find_def split: option.splits)

lemma dsf_merge_alt:
  "dsf_merge d a b =
     (\<lambda>k. case snd (dsf_find (snd (dsf_find d a)) b) k of None \<Rightarrow> None
           | Some r \<Rightarrow> Some (if r = dsf_rep d b then dsf_rep d a else r))"
proof -
  have "fst (dsf_find (snd (dsf_find d a)) b) = fst (dsf_find d b)"
    using dsf_touch_rep[of d a b] by (simp add: dsf_rep_def)
  then show ?thesis
    unfolding dsf_merge_def
    by (intro ext) (simp add: Let_def case_prod_beta dsf_rep_def split: option.splits)
qed

lemma dsf_merge_dom: "dom (dsf_merge d a b) = insert a (insert b (dom d))"
proof -
  have "dom (dsf_merge d a b) = dom (snd (dsf_find (snd (dsf_find d a)) b))"
    by (auto simp: dsf_merge_alt split: option.splits)
  then show ?thesis by (auto simp: dsf_touch_dom)
qed

lemma dsf_merge_touched:
  "dsf_merge (snd (dsf_find (snd (dsf_find d a)) b)) a b = dsf_merge d a b"
  by (rule ext)
     (simp add: dsf_merge_alt dsf_touch_rep dsf_touch_idem dsf_touch_dom split: option.splits)

lemma dsf_merge_post: "dsf_rep (dsf_merge d a b) a = dsf_rep (dsf_merge d a b) b"
proof -
  let ?d2 = "snd (dsf_find (snd (dsf_find d a)) b)"
  have "a \<in> dom ?d2" "b \<in> dom ?d2"
    by (simp_all add: dsf_touch_dom)
  then have "?d2 a = Some (dsf_rep ?d2 a)" "?d2 b = Some (dsf_rep ?d2 b)"
    by (simp_all only: dsf_seen_rep)
  then have a: "?d2 a = Some (dsf_rep d a)" and b: "?d2 b = Some (dsf_rep d b)"
    by (simp_all only: dsf_touch_rep)
  have "dsf_merge d a b a = Some (dsf_rep d a)"
    by (simp add: dsf_merge_alt a)
  moreover have "dsf_merge d a b b = Some (dsf_rep d a)"
    by (simp add: dsf_merge_alt b)
  ultimately show ?thesis
    by (simp only: dsf_rep_seen)
qed

lemma dsf_merge_rep:
  assumes "dsf_rep d ` dom d \<subseteq> dom d"
  shows "dsf_rep (dsf_merge d a b) x
           = (if dsf_rep d x = dsf_rep d b then dsf_rep d a else dsf_rep d x)"
proof -
  let ?d2 = "snd (dsf_find (snd (dsf_find d a)) b)"
  have dom2: "dom ?d2 = insert b (insert a (dom d))"
    by (simp add: dsf_touch_dom)
  have rep2: "\<And>y. dsf_rep ?d2 y = dsf_rep d y"
    by (simp add: dsf_touch_rep)
  show ?thesis
  proof (cases "?d2 x")
    case None
    then have "x \<notin> dom ?d2" by (simp add: domIff)
    then have "x \<notin> insert b (insert a (dom d))" unfolding dom2 .
    then have x: "x \<notin> dom d" and xa: "x \<noteq> a" and xb: "x \<noteq> b" by blast+
    then have rx: "dsf_rep d x = x"
      by (simp add: dsf_rep_unseen)
    have "dsf_rep d b \<noteq> x"
    proof (cases "b \<in> dom d")
      case True
      then have "dsf_rep d b \<in> dom d" using assms by blast
      with x show ?thesis by auto
    next
      case False
      then have "dsf_rep d b = b"
        by (simp add: dsf_rep_unseen)
      with xb show ?thesis by simp
    qed
    moreover have "dsf_merge d a b x = None"
      using None by (simp add: dsf_merge_alt)
    then have "dsf_rep (dsf_merge d a b) x = x"
      by (simp add: dsf_rep_alt)
    ultimately show ?thesis using rx by simp
  next
    case (Some r)
    then have "dsf_rep ?d2 x = r" by (rule dsf_rep_seen)
    then have r: "dsf_rep d x = r" by (simp only: rep2)
    have "dsf_merge d a b x = Some (if r = dsf_rep d b then dsf_rep d a else r)"
      using Some by (simp add: dsf_merge_alt)
    then have "dsf_rep (dsf_merge d a b) x = (if r = dsf_rep d b then dsf_rep d a else r)"
      by (rule dsf_rep_seen)
    with r show ?thesis by simp
  qed
qed

lemma dsf_touch_closed:
  assumes "dsf_rep d ` dom d \<subseteq> dom d"
  shows "dsf_rep (snd (dsf_find d k)) ` dom (snd (dsf_find d k)) \<subseteq> dom (snd (dsf_find d k))"
proof -
  have "dsf_rep d k \<in> insert k (dom d)"
  proof (cases "k \<in> dom d")
    case True
    then show ?thesis using assms by blast
  next
    case False
    then show ?thesis by (simp add: dsf_rep_unseen)
  qed
  then show ?thesis
    using assms by (auto simp: dsf_touch_dom dsf_touch_rep)
qed

lemma dsf_touch_count:
  assumes "finite (dom d)" and "dsf_rep d ` dom d \<subseteq> dom d"
    and "n + card (dsf_rep d ` dom d) = card (dom d)"
  shows "n + card (dsf_rep (snd (dsf_find d k)) ` dom (snd (dsf_find d k)))
           = card (dom (snd (dsf_find d k)))"
proof (cases "k \<in> dom d")
  case True
  then show ?thesis using assms(3) by (simp add: dsf_touch_idem)
next
  case False
  then have rk: "dsf_rep d k = k"
    by (simp add: dsf_rep_unseen)
  have "k \<notin> dsf_rep d ` dom d" using False assms(2) by blast
  moreover have "finite (dsf_rep d ` dom d)" using assms(1) by simp
  ultimately have "card (insert k (dsf_rep d ` dom d)) = Suc (card (dsf_rep d ` dom d))"
    by simp
  moreover have "card (insert k (dom d)) = Suc (card (dom d))"
    using False assms(1) by simp
  ultimately show ?thesis
    using assms(3) by (simp add: dsf_touch_dom dsf_touch_rep rk)
qed

lemma splitStep_binary:
  assumes "keys f = [a, b]"
  shows "splitStep (d, t, c) f =
          (if dsf_rep d a \<noteq> dsf_rep d b
           then Inr (dsf_merge d a b, t @ [f], c)
           else Inr (snd (dsf_find (snd (dsf_find d a)) b), t, c @ [f]))"
proof -
  have f1: "fst (dsf_find d a) = dsf_rep d a"
    by (simp add: dsf_rep_def)
  have f2: "fst (dsf_find (snd (dsf_find d a)) b) = dsf_rep d b"
    using dsf_touch_rep[of d a b] by (simp add: dsf_rep_def)
  show ?thesis
    using assms by (simp add: key_at_def Let_def case_prod_beta f1 f2 dsf_merge_touched)
qed

subsection \<open>The invariant holds\<close>

lemma forest_inv_empty: "forest_inv [] dsf_empty"
  by (simp add: forest_inv_def dsf_empty_def)

lemma forest_inv_touch:
  assumes "forest_inv t d"
  shows "forest_inv t (snd (dsf_find d k))"
proof -
  let ?d = "snd (dsf_find d k)"
  from assms have fin: "finite (dom d)" and cl: "dsf_rep d ` dom d \<subseteq> dom d"
    and ker: "\<And>x y. x \<in> dom d \<Longrightarrow> y \<in> dom d \<Longrightarrow> dsf_rep d x = dsf_rep d y
                \<Longrightarrow> (x, y) \<in> connected t"
    and cnt: "length (filter is_binary t) + card (dsf_rep d ` dom d) = card (dom d)"
    by (auto simp: forest_inv_def)
  have "finite (dom ?d)" using fin by (simp add: dsf_touch_dom)
  moreover have "dsf_rep ?d ` dom ?d \<subseteq> dom ?d"
    using cl by (rule dsf_touch_closed)
  moreover have "(x, y) \<in> connected t"
    if "x \<in> dom ?d" "y \<in> dom ?d" "dsf_rep ?d x = dsf_rep ?d y" for x y
  proof -
    from that(3) have eq: "dsf_rep d x = dsf_rep d y" by (simp only: dsf_touch_rep)
    show ?thesis
    proof (cases "x \<in> dom d")
      case xin: True
      show ?thesis
      proof (cases "y \<in> dom d")
        case True
        from xin True eq show ?thesis by (rule ker)
      next
        case False
        then have "dsf_rep d y = y" by (rule dsf_rep_unseen)
        moreover have "dsf_rep d x \<in> dom d" using xin cl by blast
        ultimately show ?thesis using eq False by simp
      qed
    next
      case xout: False
      then have rx: "dsf_rep d x = x" by (rule dsf_rep_unseen)
      show ?thesis
      proof (cases "y \<in> dom d")
        case True
        then have "dsf_rep d y \<in> dom d" using cl by blast
        with rx eq xout show ?thesis by simp
      next
        case False
        then have "dsf_rep d y = y" by (rule dsf_rep_unseen)
        with rx eq have "x = y" by simp
        then show ?thesis by (simp add: connected_refl)
      qed
    qed
  qed
  moreover have "length (filter is_binary t) + card (dsf_rep ?d ` dom ?d) = card (dom ?d)"
    using fin cl cnt by (rule dsf_touch_count)
  ultimately show ?thesis unfolding forest_inv_def by blast
qed

lemma connected_append_not_binary:
  assumes "length (keys f) \<noteq> 2"
  shows "connected (t @ [f]) = connected t"
  by (simp add: connected_def binaryEdges_append binaryEdges_not_binary[OF assms])

lemma forest_inv_not_binary:
  assumes "forest_inv t d" and "length (keys f) \<noteq> 2"
  shows "forest_inv (t @ [f]) d"
  using assms
  by (simp add: forest_inv_def connected_append_not_binary is_binary_def)

lemma card_image_merge:
  assumes "finite R" and "ra \<in> R" and "rb \<in> R" and "ra \<noteq> rb"
  shows "Suc (card ((\<lambda>r. if r = rb then ra else r) ` R)) = card R"
proof -
  have "(\<lambda>r. if r = rb then ra else r) ` R = R - {rb}"
    using assms(2,4) by (auto simp: image_iff)
  moreover have "card R > 0" using assms(1,2) by (auto simp: card_gt_0_iff)
  ultimately show ?thesis using assms(1,3) by (simp add: card_Diff_singleton)
qed

lemma forest_inv_merge:
  assumes inv: "forest_inv t d" and a: "a \<in> dom d" and b: "b \<in> dom d"
    and ne: "dsf_rep d a \<noteq> dsf_rep d b" and f: "keys f = [a, b]"
  shows "forest_inv (t @ [f]) (dsf_merge d a b)"
proof -
  let ?m = "dsf_merge d a b"
  let ?t = "t @ [f]"
  from inv have fin: "finite (dom d)" and cl: "dsf_rep d ` dom d \<subseteq> dom d"
    and ker: "\<And>x y. x \<in> dom d \<Longrightarrow> y \<in> dom d \<Longrightarrow> dsf_rep d x = dsf_rep d y
                \<Longrightarrow> (x, y) \<in> connected t"
    and cnt: "length (filter is_binary t) + card (dsf_rep d ` dom d) = card (dom d)"
    by (auto simp: forest_inv_def)
  have dom: "dom ?m = dom d" using a b by (auto simp: dsf_merge_dom)
  have rep: "\<And>x. dsf_rep ?m x
               = (if dsf_rep d x = dsf_rep d b then dsf_rep d a else dsf_rep d x)"
    using cl by (rule dsf_merge_rep)
  have sub: "connected t \<subseteq> connected ?t"
    by (rule connected_mono) (simp add: binaryEdges_append)
  have ab: "(a, b) \<in> connected ?t"
    by (rule connected_edge) (simp add: binaryEdges_append binaryEdges_binary[OF f])
  have c1: "dsf_rep ?m ` dom ?m \<subseteq> dom ?m"
  proof
    fix r assume "r \<in> dsf_rep ?m ` dom ?m"
    then obtain x where x: "x \<in> dom d" and r: "r = dsf_rep ?m x"
      unfolding dom by blast
    have "dsf_rep d a \<in> dom d" "dsf_rep d x \<in> dom d" using a x cl by blast+
    then show "r \<in> dom ?m" unfolding dom r rep by simp
  qed
  have c2: "(x, y) \<in> connected ?t"
    if x: "x \<in> dom ?m" and y: "y \<in> dom ?m" and eq: "dsf_rep ?m x = dsf_rep ?m y" for x y
  proof -
    from x y have xd: "x \<in> dom d" and yd: "y \<in> dom d" by (simp_all only: dom)
    have old: "\<And>u v. u \<in> dom d \<Longrightarrow> v \<in> dom d \<Longrightarrow> dsf_rep d u = dsf_rep d v
                \<Longrightarrow> (u, v) \<in> connected ?t"
      using ker sub by blast
    show ?thesis
    proof (cases "dsf_rep d x = dsf_rep d b")
      case xb: True
      show ?thesis
      proof (cases "dsf_rep d y = dsf_rep d b")
        case True
        with xb have "dsf_rep d x = dsf_rep d y" by simp
        with xd yd show ?thesis by (rule old)
      next
        case False
        with xb eq have "dsf_rep d y = dsf_rep d a" by (simp add: rep)
        then have "(y, a) \<in> connected ?t" using yd a old by blast
        then have "(a, y) \<in> connected ?t" by (rule connected_sym)
        moreover have "(x, b) \<in> connected ?t" using xb xd b old by blast
        moreover have "(b, a) \<in> connected ?t" using ab by (rule connected_sym)
        ultimately show ?thesis by (meson connected_trans)
      qed
    next
      case xnb: False
      show ?thesis
      proof (cases "dsf_rep d y = dsf_rep d b")
        case True
        with xnb eq have "dsf_rep d x = dsf_rep d a" by (simp add: rep)
        then have "(x, a) \<in> connected ?t" using xd a old by blast
        moreover have "(y, b) \<in> connected ?t" using True yd b old by blast
        then have "(b, y) \<in> connected ?t" by (rule connected_sym)
        ultimately show ?thesis using ab by (meson connected_trans)
      next
        case False
        with xnb eq have "dsf_rep d x = dsf_rep d y" by (simp add: rep)
        with xd yd show ?thesis by (rule old)
      qed
    qed
  qed
  have img: "dsf_rep ?m ` dom ?m
               = (\<lambda>r. if r = dsf_rep d b then dsf_rep d a else r) ` (dsf_rep d ` dom d)"
    unfolding dom image_image using rep by simp
  have "Suc (card (dsf_rep ?m ` dom ?m)) = card (dsf_rep d ` dom d)"
    unfolding img using fin a b ne by (intro card_image_merge) auto
  moreover have "filter is_binary ?t = filter is_binary t @ [f]"
    using f by (simp add: is_binary_def)
  ultimately have c3: "length (filter is_binary ?t) + card (dsf_rep ?m ` dom ?m) = card (dom ?m)"
    using cnt unfolding dom by simp
  have "finite (dom ?m)" using fin unfolding dom .
  with c1 c2 c3 show ?thesis unfolding forest_inv_def by blast
qed

lemma keys_length_two:
  assumes "length (keys f) = 2"
  shows "\<exists>a b. keys f = [a, b]"
  using assms by (auto simp: numeral_2_eq_2 length_Suc_conv)

lemma split_inv_init: "split_inv [] (dsf_empty, [], [])"
  using forest_inv_empty
  by (simp add: split_inv_def binaryVars_Nil binaryEdges_Nil dsf_empty_def)

lemma split_inv_step:
  assumes inv: "split_inv seen (d, t, c)" and step: "splitStep (d, t, c) f = Inr s'"
  shows "split_inv (seen @ [f]) s'"
proof -
  from inv have fi: "forest_inv t d" and dom: "dom d = binaryVars seen"
    and sub: "binaryEdges t \<subseteq> binaryEdges seen"
    and edges: "\<And>x y. (x, y) \<in> binaryEdges seen \<Longrightarrow> dsf_rep d x = dsf_rep d y"
    by (auto simp: split_inv_def)
  have not_gt: "\<not> 2 < length (keys f)"
    using step splitStep_malformed[of "(d, t, c)" f] by auto
  have not_0: "keys f \<noteq> []"
    using step splitStep_empty_keys[of f "(d, t, c)"] by auto
  show ?thesis
  proof (cases "length (keys f) = 1")
    case True
    then have s': "s' = (d, t @ [f], c)" using step by simp
    from True have nb: "length (keys f) \<noteq> 2" by simp
    show ?thesis
      unfolding s' split_inv_def
      using forest_inv_not_binary[OF fi nb] dom sub edges
      by (auto simp: binaryVars_append binaryEdges_append
            binaryVars_not_binary[OF nb] binaryEdges_not_binary[OF nb])
  next
    case False
    moreover have "length (keys f) \<noteq> 0" using not_0 by simp
    ultimately have "length (keys f) = 2" using not_gt by arith
    then obtain a b where f: "keys f = [a, b]"
      using keys_length_two by blast
    let ?d2 = "snd (dsf_find (snd (dsf_find d a)) b)"
    have fi2: "forest_inv t ?d2"
      using fi by (intro forest_inv_touch)
    have dom2: "dom ?d2 = binaryVars (seen @ [f])"
      using dom by (auto simp: dsf_touch_dom binaryVars_append binaryVars_binary[OF f])
    have rep2: "\<And>x. dsf_rep ?d2 x = dsf_rep d x"
      by (simp add: dsf_touch_rep)
    have a: "a \<in> dom ?d2" and b: "b \<in> dom ?d2"
      by (simp_all add: dsf_touch_dom)
    have E: "binaryEdges (seen @ [f]) = insert (a, b) (binaryEdges seen)"
      by (simp add: binaryEdges_append binaryEdges_binary[OF f])
    show ?thesis
    proof (cases "dsf_rep d a \<noteq> dsf_rep d b")
      case True
      then have s': "s' = (dsf_merge d a b, t @ [f], c)"
        using step by (simp only: splitStep_binary[OF f] if_True) simp
      have m: "dsf_merge d a b = dsf_merge ?d2 a b"
        by (simp only: dsf_merge_touched)
      have ne2: "dsf_rep ?d2 a \<noteq> dsf_rep ?d2 b" using True by (simp add: rep2)
      have fim: "forest_inv (t @ [f]) (dsf_merge d a b)"
        unfolding m using fi2 a b ne2 f by (rule forest_inv_merge)
      have cl: "dsf_rep d ` dom d \<subseteq> dom d" using fi by (simp add: forest_inv_def)
      have rep: "\<And>x. dsf_rep (dsf_merge d a b) x
               = (if dsf_rep d x = dsf_rep d b then dsf_rep d a else dsf_rep d x)"
        using cl by (rule dsf_merge_rep)
      have domm: "dom (dsf_merge d a b) = binaryVars (seen @ [f])"
        using dom by (auto simp: dsf_merge_dom binaryVars_append binaryVars_binary[OF f])
      have subm: "binaryEdges (t @ [f]) \<subseteq> binaryEdges (seen @ [f])"
        using sub by (auto simp: binaryEdges_append)
      have "dsf_rep (dsf_merge d a b) x = dsf_rep (dsf_merge d a b) y"
        if "(x, y) \<in> binaryEdges (seen @ [f])" for x y
      proof (cases "(x, y) = (a, b)")
        case True
        then show ?thesis using dsf_merge_post[of d a b] by simp
      next
        case False
        with that have "(x, y) \<in> binaryEdges seen" by (auto simp: E)
        then have "dsf_rep d x = dsf_rep d y" by (rule edges)
        then show ?thesis by (simp add: rep)
      qed
      with fim domm subm show ?thesis
        unfolding s' split_inv_def by auto
    next
      case False
      then have s': "s' = (?d2, t, c @ [f])"
        using step by (simp only: splitStep_binary[OF f]) simp
      have subm: "binaryEdges t \<subseteq> binaryEdges (seen @ [f])"
        using sub by (auto simp: binaryEdges_append)
      have "dsf_rep ?d2 x = dsf_rep ?d2 y"
        if "(x, y) \<in> binaryEdges (seen @ [f])" for x y
      proof (cases "(x, y) = (a, b)")
        case True
        then show ?thesis using False by (simp add: rep2)
      next
        case ne: False
        with that have "(x, y) \<in> binaryEdges seen" by (auto simp: E)
        then have "dsf_rep d x = dsf_rep d y" by (rule edges)
        then show ?thesis by (simp add: rep2)
      qed
      with fi2 dom2 subm show ?thesis
        unfolding s' split_inv_def by auto
    qed
  qed
qed

lemma split_inv_loop:
  assumes "split_inv seen s" and "splitLoop s g = Inr s'"
  shows "split_inv (seen @ g) s'"
  using assms
proof (induction g arbitrary: seen s)
  case Nil
  then show ?case by simp
next
  case (Cons f g)
  from Cons.prems(2) obtain s1 where
    step: "splitStep s f = Inr s1" and rest: "splitLoop s1 g = Inr s'"
    by (auto split: sum.splits)
  obtain d t c where s: "s = (d, t, c)" by (cases s) auto
  have "split_inv (seen @ [f]) s1"
    using Cons.prems(1) step unfolding s by (rule split_inv_step)
  from Cons.IH[OF this rest] show ?case by simp
qed

lemma splitGraph_inv:
  assumes "splitGraph g = Inr (t, c)"
  shows "\<exists>d. splitLoop (dsf_empty, [], []) g = Inr (d, t, c) \<and> split_inv g (d, t, c)"
proof -
  from splitGraph_Inr[OF assms] obtain d where
    loop: "splitLoop (dsf_empty, [], []) g = Inr (d, t, c)" by blast
  from split_inv_loop[OF split_inv_init loop] have "split_inv g (d, t, c)" by simp
  with loop show ?thesis by blast
qed

lemma components_image: "components g = (\<lambda>x. connected g `` {x}) ` binaryVars g"
  by (auto simp: components_def quotient_def)

lemma connected_class_eq:
  "(connected g `` {x} = connected g `` {y}) = ((x, y) \<in> connected g)"
proof
  assume "connected g `` {x} = connected g `` {y}"
  moreover have "y \<in> connected g `` {y}" by (simp add: connected_refl)
  ultimately show "(x, y) \<in> connected g" by blast
next
  assume xy: "(x, y) \<in> connected g"
  then have yx: "(y, x) \<in> connected g" by (rule connected_sym)
  show "connected g `` {x} = connected g `` {y}"
    using xy yx by (auto intro: connected_trans)
qed

lemma splitLoop_split:
  assumes "splitLoop s (pre @ f # post) = Inr s'"
  shows "\<exists>s1 s2. splitLoop s pre = Inr s1 \<and> splitStep s1 f = Inr s2
           \<and> splitLoop s2 post = Inr s'"
  using assms by (auto simp: splitLoop_append split: sum.splits)

subsection \<open>Acceptance and placement\<close>

lemma splitGraph_arity_above_two_malformed:
  assumes "\<forall>p\<in>set pre. length (keys p) = 1 \<or> length (keys p) = 2"
    and "2 < length (keys f)"
  shows "splitGraph (pre @ f # post) = Inl MalformedFactor"
proof -
  have "\<And>s'. splitStep s' f = Inl MalformedFactor"
    using assms(2) by (simp add: splitStep_malformed)
  with assms(1) have "splitLoop (dsf_empty, [], []) (pre @ f # post) = Inl MalformedFactor"
    using splitLoop_first_bad by blast
  then show ?thesis by (rule splitGraph_Inl)
qed

lemma splitLoop_Inr_arities:
  assumes "splitLoop s g = Inr s'"
  shows "\<forall>p\<in>set g. length (keys p) = 1 \<or> length (keys p) = 2"
  using assms
proof (induction g arbitrary: s)
  case Nil
  show ?case by simp
next
  case (Cons f g)
  from Cons.prems obtain s1 where
    step: "splitStep s f = Inr s1" and rest: "splitLoop s1 g = Inr s'"
    by (auto split: sum.splits)
  have "\<not> 2 < length (keys f)"
    using step splitStep_malformed[of s f] by auto
  moreover have "keys f \<noteq> []"
    using step splitStep_empty_keys[of f s] by auto
  then have "length (keys f) \<noteq> 0" by simp
  ultimately have "length (keys f) = 1 \<or> length (keys f) = 2" by arith
  with Cons.IH[OF rest] show ?case by simp
qed

lemma splitGraph_accepts:
  assumes "\<forall>p\<in>set g. length (keys p) = 1 \<or> length (keys p) = 2"
  shows "\<exists>t c. splitGraph g = Inr (t, c)"
proof -
  from splitLoop_ok[OF assms] obtain s' where
    "splitLoop (dsf_empty, [], []) g = Inr s'" by blast
  then show ?thesis
    by (cases s') (simp add: splitGraph_def)
qed

lemma splitGraph_three_keys_fails:
  assumes "f \<in> set g" and "length (keys f) = 3"
  shows "\<exists>e. splitGraph g = Inl e"
proof (cases "splitLoop (dsf_empty, [], []) g")
  case (Inl e)
  then show ?thesis by (simp add: splitGraph_def)
next
  case (Inr s')
  from splitLoop_Inr_arities[OF Inr] assms show ?thesis by auto
qed

lemma splitGraph_binary_placement_accepted:
  assumes "splitGraph (pre @ f # post) = Inr (T, C)" and "keys f = [a, b]"
  shows "\<exists>d t c t' c'.
           splitLoop (dsf_empty, [], []) pre = Inr (d, t, c)
         \<and> (if dsf_rep d a \<noteq> dsf_rep d b
            then splitLoop (dsf_empty, [], []) (pre @ [f]) = Inr (dsf_merge d a b, t @ [f], c)
               \<and> (\<forall>k. dsf_rep (dsf_merge d a b) k
                         = (if dsf_rep d k = dsf_rep d b then dsf_rep d a else dsf_rep d k))
               \<and> T = t @ f # t' \<and> C = c @ c'
            else (\<exists>d'. splitLoop (dsf_empty, [], []) (pre @ [f]) = Inr (d', t, c @ [f])
                       \<and> (\<forall>k. dsf_rep d' k = dsf_rep d k))
               \<and> T = t @ t' \<and> C = c @ f # c')"
proof -
  from splitGraph_Inr[OF assms(1)] obtain dF where
    loop: "splitLoop (dsf_empty, [], []) (pre @ f # post) = Inr (dF, T, C)" by blast
  from splitLoop_split[OF loop] obtain s1 s2 where
    p: "splitLoop (dsf_empty, [], []) pre = Inr s1" and st: "splitStep s1 f = Inr s2"
    and r: "splitLoop s2 post = Inr (dF, T, C)" by blast
  obtain d t c where s1: "s1 = (d, t, c)" by (cases s1) auto
  have pf: "splitLoop (dsf_empty, [], []) (pre @ [f]) = Inr s2"
    using p st by (simp add: splitLoop_append)
  from split_inv_loop[OF split_inv_init p] have "split_inv pre (d, t, c)"
    by (simp add: s1)
  then have "forest_inv t d" by (simp add: split_inv_def)
  then have cl: "dsf_rep d ` dom d \<subseteq> dom d"
    unfolding forest_inv_def by blast
  show ?thesis
  proof (cases "dsf_rep d a \<noteq> dsf_rep d b")
    case True
    then have s2: "s2 = (dsf_merge d a b, t @ [f], c)"
      using st unfolding s1 by (simp only: splitStep_binary[OF assms(2)] if_True) simp
    from splitLoop_nths[OF r[unfolded s2]] obtain S where
      "T = (t @ [f]) @ nths post S" "C = c @ nths post (- S)" by blast
    then have "T = t @ f # nths post S" "C = c @ nths post (- S)" by simp_all
    moreover have "\<forall>k. dsf_rep (dsf_merge d a b) k
                         = (if dsf_rep d k = dsf_rep d b then dsf_rep d a else dsf_rep d k)"
      using dsf_merge_rep[OF cl] by blast
    ultimately show ?thesis
      using p pf True unfolding s1 s2 by (intro exI[of _ d] exI[of _ t] exI[of _ c]
          exI[of _ "nths post S"] exI[of _ "nths post (- S)"]) simp
  next
    case False
    let ?d2 = "snd (dsf_find (snd (dsf_find d a)) b)"
    from False have s2: "s2 = (?d2, t, c @ [f])"
      using st unfolding s1 by (simp only: splitStep_binary[OF assms(2)]) simp
    from splitLoop_nths[OF r[unfolded s2]] obtain S where
      "T = t @ nths post S" "C = (c @ [f]) @ nths post (- S)" by blast
    then have "T = t @ nths post S" "C = c @ f # nths post (- S)" by simp_all
    moreover have "\<exists>d'. splitLoop (dsf_empty, [], []) (pre @ [f]) = Inr (d', t, c @ [f])
                       \<and> (\<forall>k. dsf_rep d' k = dsf_rep d k)"
      using pf unfolding s2 by (intro exI[of _ ?d2]) (simp add: dsf_touch_rep)
    ultimately show ?thesis
      using p False unfolding s1 by (intro exI[of _ d] exI[of _ t] exI[of _ c]
          exI[of _ "nths post S"] exI[of _ "nths post (- S)"]) simp
  qed
qed

lemma splitGraph_unary_accepted:
  assumes "splitGraph g = Inr (t, c)"
  shows "(\<forall>f\<in>set g. is_unary f \<longrightarrow> f \<in> set t \<and> f \<notin> set c)
       \<and> filter is_unary t = filter is_unary g
       \<and> filter is_unary c = []"
proof -
  from splitGraph_Inr[OF assms] obtain d where
    loop: "splitLoop (dsf_empty, [], []) g = Inr (d, t, c)" by blast
  from splitLoop_unary[OF loop] have
    ft: "filter is_unary t = filter is_unary g" and fc: "filter is_unary c = []"
    by simp_all
  have "f \<in> set t \<and> f \<notin> set c" if "f \<in> set g" "is_unary f" for f
  proof -
    from that have "f \<in> set (filter is_unary g)" by simp
    then have "f \<in> set (filter is_unary t)" by (simp only: ft)
    then have "f \<in> set t" by simp
    moreover have "f \<notin> set c"
    proof
      assume "f \<in> set c"
      with that(2) have "f \<in> set (filter is_unary c)" by simp
      then show False by (simp only: fc) simp
    qed
    ultimately show ?thesis ..
  qed
  with ft fc show ?thesis by blast
qed

section \<open>The claims\<close>

text \<open>
  Claim C1. Whenever \<open>splitGraph\<close> accepts its input, that is, returns the two graphs,
  they partition the input: one set \<open>S\<close> of positions gives the tree and its complement
  gives the constraints, so every factor of the input is in exactly one of them and each
  output keeps the input order; the sizes add up to the size of the input.
\<close>

theorem splitGraph_partition:
  assumes "splitGraph g = Inr (t, c)"
  shows "(\<exists>S. t = nths g S \<and> c = nths g (- S))
       \<and> length t + length c = length g
       \<and> mset t + mset c = mset g
       \<and> set t \<union> set c = set g
       \<and> (distinct g \<longrightarrow> set t \<inter> set c = {})
       \<and> subseq t g \<and> subseq c g"
proof -
  from splitGraph_Inr[OF assms] obtain d where
    loop: "splitLoop (dsf_empty, [], []) g = Inr (d, t, c)" by blast
  from splitLoop_nths[OF loop] obtain S where
    S: "t = nths g S" "c = nths g (- S)" by auto
  have m: "mset t + mset c = mset g"
    using splitLoop_mset[OF loop] by simp
  have "size (mset t + mset c) = size (mset g)"
    by (simp only: m)
  then have l: "length t + length c = length g" by simp
  have "set_mset (mset t + mset c) = set_mset (mset g)"
    by (simp only: m)
  then have u: "set t \<union> set c = set g" by simp
  have dj: "distinct g \<longrightarrow> set t \<inter> set c = {}"
    unfolding S using nths_compl_disjoint by blast
  have "subseq t g" "subseq c g"
    unfolding S by (auto simp: subseq_conv_nths)
  with S m l u dj show ?thesis by blast
qed

theorem splitGraph_partition_witness:
  "splitGraph [\<lparr>keys = [1], payload = 10\<rparr>, \<lparr>keys = [1, 2], payload = 11\<rparr>,
               \<lparr>keys = [2, 3], payload = 12\<rparr>, \<lparr>keys = [3, 1], payload = (13::nat)\<rparr>]
     = Inr ([\<lparr>keys = [1], payload = 10\<rparr>, \<lparr>keys = [1, 2], payload = 11\<rparr>,
             \<lparr>keys = [2, 3], payload = 12\<rparr>],
            [\<lparr>keys = [3, 1], payload = 13\<rparr>])
   \<and> length [\<lparr>keys = [1], payload = 10\<rparr>, \<lparr>keys = [1, 2], payload = 11\<rparr>,
             \<lparr>keys = [2, 3], payload = (12::nat)\<rparr>]
       + length [\<lparr>keys = [3, 1], payload = (13::nat)\<rparr>] = 4"
  using splitGraph_partition[of "[\<lparr>keys = [1], payload = 10\<rparr>, \<lparr>keys = [1, 2], payload = 11\<rparr>,
               \<lparr>keys = [2, 3], payload = 12\<rparr>, \<lparr>keys = [3, 1], payload = (13::nat)\<rparr>]"
              "[\<lparr>keys = [1], payload = 10\<rparr>, \<lparr>keys = [1, 2], payload = 11\<rparr>,
             \<lparr>keys = [2, 3], payload = 12\<rparr>]" "[\<lparr>keys = [3, 1], payload = 13\<rparr>]"]
  by (simp add: splitGraph_def key_at_def dsf_find_def dsf_merge_def dsf_empty_def)

text \<open>
  Claim C2. Let the binary factor \<open>f\<close> with keys \<open>a\<close> and \<open>b\<close> stand after the factors
  \<open>pre\<close> in an input whose factors all have one or two keys. Then \<open>splitGraph\<close> returns
  its two outputs, and with \<open>d\<close>, \<open>t\<close>, \<open>c\<close> the forest, the tree and the constraints
  after \<open>pre\<close>: if \<open>a\<close> and \<open>b\<close> have different representatives in \<open>d\<close>, then \<open>f\<close> is
  appended to the tree and the forest becomes \<open>merge(a, b)\<close>, which unites the two sets;
  otherwise \<open>f\<close> is appended to the constraints and no representative changes. The
  outputs extend the tree and the constraints so obtained.
\<close>

theorem splitGraph_binary_placement:
  assumes "\<forall>p\<in>set (pre @ f # post). length (keys p) = 1 \<or> length (keys p) = 2"
    and "keys f = [a, b]"
  shows "\<exists>T C d t c t' c'.
           splitGraph (pre @ f # post) = Inr (T, C)
         \<and> splitLoop (dsf_empty, [], []) pre = Inr (d, t, c)
         \<and> (if dsf_rep d a \<noteq> dsf_rep d b
            then splitLoop (dsf_empty, [], []) (pre @ [f]) = Inr (dsf_merge d a b, t @ [f], c)
               \<and> (\<forall>k. dsf_rep (dsf_merge d a b) k
                         = (if dsf_rep d k = dsf_rep d b then dsf_rep d a else dsf_rep d k))
               \<and> T = t @ f # t' \<and> C = c @ c'
            else (\<exists>d'. splitLoop (dsf_empty, [], []) (pre @ [f]) = Inr (d', t, c @ [f])
                       \<and> (\<forall>k. dsf_rep d' k = dsf_rep d k))
               \<and> T = t @ t' \<and> C = c @ f # c')"
proof -
  from splitGraph_accepts[OF assms(1)] obtain T C where
    acc: "splitGraph (pre @ f # post) = Inr (T, C)" by blast
  from splitGraph_binary_placement_accepted[OF acc assms(2)] acc show ?thesis by blast
qed

theorem splitGraph_binary_placement_witness:
  "keys \<lparr>keys = [3, 1], payload = ()\<rparr> = [3, 1]
   \<and> (\<exists>d t c c'.
         splitGraph ([\<lparr>keys = [1, 2], payload = ()\<rparr>, \<lparr>keys = [2, 3], payload = ()\<rparr>]
        @ \<lparr>keys = [3, 1], payload = ()\<rparr> # [\<lparr>keys = [3, 4], payload = ()\<rparr>])
           = Inr ([\<lparr>keys = [1, 2], payload = ()\<rparr>, \<lparr>keys = [2, 3], payload = ()\<rparr>, \<lparr>keys = [3, 4], payload = ()\<rparr>], c @ \<lparr>keys = [3, 1], payload = ()\<rparr> # c')
       \<and> splitLoop (dsf_empty, [], []) [\<lparr>keys = [1, 2], payload = ()\<rparr>, \<lparr>keys = [2, 3], payload = ()\<rparr>] = Inr (d, t, c)
       \<and> dsf_rep d 3 = dsf_rep d 1)"
proof -
  have h1: "\<forall>p\<in>set ([\<lparr>keys = [1, 2], payload = ()\<rparr>, \<lparr>keys = [2, 3], payload = ()\<rparr>]
        @ \<lparr>keys = [3, 1], payload = ()\<rparr> # [\<lparr>keys = [3, 4], payload = ()\<rparr>]).
       length (keys p) = 1 \<or> length (keys p) = 2"
    by simp
  have h2: "keys \<lparr>keys = [3, 1], payload = ()\<rparr> = [3, 1]" by simp
  have ev: "splitGraph ([\<lparr>keys = [1, 2], payload = ()\<rparr>, \<lparr>keys = [2, 3], payload = ()\<rparr>]
        @ \<lparr>keys = [3, 1], payload = ()\<rparr> # [\<lparr>keys = [3, 4], payload = ()\<rparr>])
           = Inr ([\<lparr>keys = [1, 2], payload = ()\<rparr>, \<lparr>keys = [2, 3], payload = ()\<rparr>, \<lparr>keys = [3, 4], payload = ()\<rparr>], [\<lparr>keys = [3, 1], payload = ()\<rparr>])"
    by (simp add: splitGraph_def key_at_def dsf_find_def dsf_merge_def dsf_empty_def Let_def)
  from splitGraph_binary_placement[OF h1 h2] obtain T C d t c t' c' where
    sg: "splitGraph ([\<lparr>keys = [1, 2], payload = ()\<rparr>, \<lparr>keys = [2, 3], payload = ()\<rparr>]
        @ \<lparr>keys = [3, 1], payload = ()\<rparr> # [\<lparr>keys = [3, 4], payload = ()\<rparr>]) = Inr (T, C)"
    and p: "splitLoop (dsf_empty, [], []) [\<lparr>keys = [1, 2], payload = ()\<rparr>, \<lparr>keys = [2, 3], payload = ()\<rparr>] = Inr (d, t, c)"
    and r: "if dsf_rep d 3 \<noteq> dsf_rep d 1
            then T = t @ \<lparr>keys = [3, 1], payload = ()\<rparr> # t'
            else C = c @ \<lparr>keys = [3, 1], payload = ()\<rparr> # c'"
    by (auto split: if_splits)
  from sg ev have T: "T = [\<lparr>keys = [1, 2], payload = ()\<rparr>, \<lparr>keys = [2, 3], payload = ()\<rparr>, \<lparr>keys = [3, 4], payload = ()\<rparr>]" and C: "C = [\<lparr>keys = [3, 1], payload = ()\<rparr>]" by simp_all
  have eq: "dsf_rep d 3 = dsf_rep d 1"
  proof (rule ccontr)
    assume "dsf_rep d 3 \<noteq> dsf_rep d 1"
    with r T have "[\<lparr>keys = [1, 2], payload = ()\<rparr>, \<lparr>keys = [2, 3], payload = ()\<rparr>, \<lparr>keys = [3, 4], payload = ()\<rparr>] = t @ \<lparr>keys = [3, 1], payload = ()\<rparr> # t'" by simp
    then have "\<lparr>keys = [3, 1], payload = ()\<rparr> \<in> set [\<lparr>keys = [1, 2], payload = ()\<rparr>, \<lparr>keys = [2, 3], payload = ()\<rparr>, \<lparr>keys = [3, 4], payload = ()\<rparr>]"
      by (simp only: set_append list.set) simp
    then show False by simp
  qed
  with r have "C = c @ \<lparr>keys = [3, 1], payload = ()\<rparr> # c'" by simp
  with sg T have "splitGraph ([\<lparr>keys = [1, 2], payload = ()\<rparr>, \<lparr>keys = [2, 3], payload = ()\<rparr>]
        @ \<lparr>keys = [3, 1], payload = ()\<rparr> # [\<lparr>keys = [3, 4], payload = ()\<rparr>])
           = Inr ([\<lparr>keys = [1, 2], payload = ()\<rparr>, \<lparr>keys = [2, 3], payload = ()\<rparr>, \<lparr>keys = [3, 4], payload = ()\<rparr>], c @ \<lparr>keys = [3, 1], payload = ()\<rparr> # c')" by simp
  with p eq h2 show ?thesis by blast
qed

text \<open>
  Claim C3 at a graph of one factor without keys: the sanity check lets the factor pass,
  and the call ends in the out-of-range read of \<open>keys[0]\<close>, not in the malformed-factor
  error that the claim requires for arity 0.
\<close>

theorem splitGraph_arity_zero_not_malformed:
  "splitGraph [\<lparr>keys = [], payload = ()\<rparr>] = Inl KeyIndexOutOfRange
   \<and> splitGraph [\<lparr>keys = [], payload = ()\<rparr>] \<noteq> Inl MalformedFactor"
  by (simp add: splitGraph_def key_at_def)

text \<open>
  Claim C4. \<open>optimize(initial)\<close> returns what \<open>optimize()\<close> returns on the same solver,
  whatever the initial assignment is; two initial assignments give the same result.
\<close>

theorem optimize_initial_ignored:
  "optimize_initial conjugateGradients zero x solver initial
     = optimize conjugateGradients zero x solver
   \<and> optimize_initial conjugateGradients zero x solver initial
     = optimize_initial conjugateGradients zero x solver initial'"
  by (simp add: optimize_initial_def)

text \<open>
  Claim C5. The overload of \<open>optimize\<close> that takes a factor graph, the key information,
  \<open>lambda\<close> and an initial assignment returns the empty assignment for all inputs.
\<close>

theorem optimize_lambda_empty:
  "optimize_lambda gfg keyInfo lambda initial = Map.empty
   \<and> dom (optimize_lambda gfg keyInfo lambda initial) = {}"
  by (simp add: optimize_lambda_def)

text \<open>
  Claim C6. For an accepted input, the number of binary factors in the tree is the number
  of variables touched by binary factors minus the number of connected components of the
  graph of the binary factors; the subtraction does not truncate, and the binary factors
  of the tree connect the same keys as those of the input, so they span it.
\<close>

theorem splitGraph_spanning_forest_size:
  assumes "splitGraph g = Inr (T, C)"
  shows "length (filter is_binary T) = card (binaryVars g) - card (components g)
       \<and> card (components g) \<le> card (binaryVars g)
       \<and> connected T = connected g"
proof -
  from splitGraph_inv[OF assms] obtain d where inv: "split_inv g (d, T, C)" by blast
  then have fi: "forest_inv T d" and dom: "dom d = binaryVars g"
    and sub: "binaryEdges T \<subseteq> binaryEdges g"
    and edges: "\<And>x y. (x, y) \<in> binaryEdges g \<Longrightarrow> dsf_rep d x = dsf_rep d y"
    by (auto simp: split_inv_def)
  from fi have ker: "\<And>x y. x \<in> dom d \<Longrightarrow> y \<in> dom d \<Longrightarrow> dsf_rep d x = dsf_rep d y
                \<Longrightarrow> (x, y) \<in> connected T"
    and cnt: "length (filter is_binary T) + card (dsf_rep d ` dom d) = card (dom d)"
    by (auto simp: forest_inv_def)
  have TG: "connected T \<subseteq> connected g"
    using sub by (rule connected_mono)
  have GT: "connected g \<subseteq> connected T"
  proof
    fix p assume p: "p \<in> connected g"
    obtain x y where xy: "p = (x, y)" by (cases p)
    show "p \<in> connected T"
    proof (cases "x = y")
      case True
      then show ?thesis unfolding xy by (simp add: connected_refl)
    next
      case False
      with p have "x \<in> binaryVars g \<and> y \<in> binaryVars g"
        unfolding xy by (rule connected_in_vars)
      moreover have "dsf_rep d x = dsf_rep d y"
        using p edges unfolding xy by (rule connected_same_value)
      ultimately show ?thesis unfolding xy using ker dom by simp
    qed
  qed
  have span: "connected T = connected g" using TG GT by (rule equalityI)
  have "card ((\<lambda>x. connected g `` {x}) ` binaryVars g) = card (dsf_rep d ` binaryVars g)"
  proof (rule card_image_same_kernel)
    show "finite (binaryVars g)" by (rule finite_binaryVars)
  next
    fix x y assume x: "x \<in> binaryVars g" and y: "y \<in> binaryVars g"
    show "(connected g `` {x} = connected g `` {y}) = (dsf_rep d x = dsf_rep d y)"
      unfolding connected_class_eq
    proof
      assume "(x, y) \<in> connected g"
      then show "dsf_rep d x = dsf_rep d y"
        using edges by (rule connected_same_value)
    next
      assume "dsf_rep d x = dsf_rep d y"
      then have "(x, y) \<in> connected T" using x y ker dom by simp
      then show "(x, y) \<in> connected g" using TG by blast
    qed
  qed
  then have "card (components g) = card (dsf_rep d ` dom d)"
    by (simp add: components_image dom)
  with cnt have "length (filter is_binary T) + card (components g) = card (binaryVars g)"
    by (simp add: dom)
  with span show ?thesis by simp
qed

theorem splitGraph_spanning_forest_size_witness:
  "splitGraph [\<lparr>keys = [1], payload = ()\<rparr>, \<lparr>keys = [1, 2], payload = ()\<rparr>,
               \<lparr>keys = [2, 3], payload = ()\<rparr>, \<lparr>keys = [3, 1], payload = ()\<rparr>,
               \<lparr>keys = [4, 5], payload = ()\<rparr>]
     = Inr ([\<lparr>keys = [1], payload = ()\<rparr>, \<lparr>keys = [1, 2], payload = ()\<rparr>,
             \<lparr>keys = [2, 3], payload = ()\<rparr>, \<lparr>keys = [4, 5], payload = ()\<rparr>],
            [\<lparr>keys = [3, 1], payload = ()\<rparr>])
   \<and> card (binaryVars [\<lparr>keys = [1], payload = ()\<rparr>, \<lparr>keys = [1, 2], payload = ()\<rparr>,
               \<lparr>keys = [2, 3], payload = ()\<rparr>, \<lparr>keys = [3, 1], payload = ()\<rparr>,
               \<lparr>keys = [4, 5], payload = ()\<rparr>])
       - card (components [\<lparr>keys = [1], payload = ()\<rparr>, \<lparr>keys = [1, 2], payload = ()\<rparr>,
               \<lparr>keys = [2, 3], payload = ()\<rparr>, \<lparr>keys = [3, 1], payload = ()\<rparr>,
               \<lparr>keys = [4, 5], payload = ()\<rparr>]) = 3"
proof -
  have h: "splitGraph [\<lparr>keys = [1], payload = ()\<rparr>, \<lparr>keys = [1, 2], payload = ()\<rparr>,
               \<lparr>keys = [2, 3], payload = ()\<rparr>, \<lparr>keys = [3, 1], payload = ()\<rparr>,
               \<lparr>keys = [4, 5], payload = ()\<rparr>]
     = Inr ([\<lparr>keys = [1], payload = ()\<rparr>, \<lparr>keys = [1, 2], payload = ()\<rparr>,
             \<lparr>keys = [2, 3], payload = ()\<rparr>, \<lparr>keys = [4, 5], payload = ()\<rparr>],
            [\<lparr>keys = [3, 1], payload = ()\<rparr>])"
    by (simp add: splitGraph_def key_at_def dsf_find_def dsf_merge_def dsf_empty_def Let_def)
  from splitGraph_spanning_forest_size[OF h] have "card (binaryVars [\<lparr>keys = [1], payload = ()\<rparr>, \<lparr>keys = [1, 2], payload = ()\<rparr>,
               \<lparr>keys = [2, 3], payload = ()\<rparr>, \<lparr>keys = [3, 1], payload = ()\<rparr>,
               \<lparr>keys = [4, 5], payload = ()\<rparr>])
       - card (components [\<lparr>keys = [1], payload = ()\<rparr>, \<lparr>keys = [1, 2], payload = ()\<rparr>,
               \<lparr>keys = [2, 3], payload = ()\<rparr>, \<lparr>keys = [3, 1], payload = ()\<rparr>,
               \<lparr>keys = [4, 5], payload = ()\<rparr>]) = 3"
    by (simp add: is_binary_def)
  with h show ?thesis by (rule conjI)
qed

text \<open>
  Claim C7. For an input whose factors all have one or two keys, \<open>splitGraph\<close> returns
  its two outputs, and every unary factor of the input is in the tree and not in the
  constraints: the unary factors of the tree are those of the input, in order, and the
  constraints have none.
\<close>

theorem splitGraph_unary_in_tree:
  assumes "\<forall>p\<in>set g. length (keys p) = 1 \<or> length (keys p) = 2"
  shows "\<exists>t c. splitGraph g = Inr (t, c)
         \<and> (\<forall>f\<in>set g. is_unary f \<longrightarrow> f \<in> set t \<and> f \<notin> set c)
         \<and> filter is_unary t = filter is_unary g
         \<and> filter is_unary c = []"
proof -
  from splitGraph_accepts[OF assms] obtain t c where
    acc: "splitGraph g = Inr (t, c)" by blast
  from splitGraph_unary_accepted[OF acc] acc show ?thesis by blast
qed

theorem splitGraph_unary_in_tree_witness:
  "splitGraph [\<lparr>keys = [1], payload = 10\<rparr>, \<lparr>keys = [1, 2], payload = 11\<rparr>, \<lparr>keys = [2, 1], payload = 12\<rparr>, \<lparr>keys = [2], payload = (13::nat)\<rparr>]
       = Inr ([\<lparr>keys = [1], payload = 10\<rparr>, \<lparr>keys = [1, 2], payload = 11\<rparr>, \<lparr>keys = [2], payload = (13::nat)\<rparr>], [\<lparr>keys = [2, 1], payload = 12\<rparr>])
   \<and> is_unary \<lparr>keys = [2], payload = (13::nat)\<rparr>
   \<and> \<lparr>keys = [2], payload = (13::nat)\<rparr> \<in> set [\<lparr>keys = [1], payload = 10\<rparr>, \<lparr>keys = [1, 2], payload = 11\<rparr>, \<lparr>keys = [2], payload = (13::nat)\<rparr>]
   \<and> \<lparr>keys = [2], payload = (13::nat)\<rparr> \<notin> set [\<lparr>keys = [2, 1], payload = 12\<rparr>]"
proof -
  have h: "\<forall>p\<in>set [\<lparr>keys = [1], payload = 10\<rparr>, \<lparr>keys = [1, 2], payload = 11\<rparr>, \<lparr>keys = [2, 1], payload = 12\<rparr>, \<lparr>keys = [2], payload = (13::nat)\<rparr>].
       length (keys p) = 1 \<or> length (keys p) = 2"
    by simp
  have ev: "splitGraph [\<lparr>keys = [1], payload = 10\<rparr>, \<lparr>keys = [1, 2], payload = 11\<rparr>, \<lparr>keys = [2, 1], payload = 12\<rparr>, \<lparr>keys = [2], payload = (13::nat)\<rparr>]
       = Inr ([\<lparr>keys = [1], payload = 10\<rparr>, \<lparr>keys = [1, 2], payload = 11\<rparr>, \<lparr>keys = [2], payload = (13::nat)\<rparr>], [\<lparr>keys = [2, 1], payload = 12\<rparr>])"
    by (simp add: splitGraph_def key_at_def dsf_find_def dsf_merge_def dsf_empty_def Let_def)
  from splitGraph_unary_in_tree[OF h] obtain t c where
    sg: "splitGraph [\<lparr>keys = [1], payload = 10\<rparr>, \<lparr>keys = [1, 2], payload = 11\<rparr>, \<lparr>keys = [2, 1], payload = 12\<rparr>, \<lparr>keys = [2], payload = (13::nat)\<rparr>] = Inr (t, c)"
    and un: "\<forall>f\<in>set [\<lparr>keys = [1], payload = 10\<rparr>, \<lparr>keys = [1, 2], payload = 11\<rparr>, \<lparr>keys = [2, 1], payload = 12\<rparr>, \<lparr>keys = [2], payload = (13::nat)\<rparr>]. is_unary f \<longrightarrow> f \<in> set t \<and> f \<notin> set c"
    by blast
  from sg ev have t: "t = [\<lparr>keys = [1], payload = 10\<rparr>, \<lparr>keys = [1, 2], payload = 11\<rparr>, \<lparr>keys = [2], payload = (13::nat)\<rparr>]" and c: "c = [\<lparr>keys = [2, 1], payload = 12\<rparr>]" by simp_all
  have u: "is_unary \<lparr>keys = [2], payload = (13::nat)\<rparr>" by (simp add: is_unary_def)
  have "\<lparr>keys = [2], payload = (13::nat)\<rparr> \<in> set [\<lparr>keys = [1], payload = 10\<rparr>, \<lparr>keys = [1, 2], payload = 11\<rparr>, \<lparr>keys = [2, 1], payload = 12\<rparr>, \<lparr>keys = [2], payload = (13::nat)\<rparr>]" by simp
  with un u have "\<lparr>keys = [2], payload = (13::nat)\<rparr> \<in> set t \<and> \<lparr>keys = [2], payload = (13::nat)\<rparr> \<notin> set c" by blast
  with ev u show ?thesis unfolding t c by blast
qed

text \<open>
  Claim C10. The sanity check of \<open>splitGraph\<close> is \<open>keys.size() > 2\<close> alone. A factor
  without keys passes it, is not unary, and reaches \<open>keys[0]\<close> and \<open>keys[1]\<close>, which
  are beyond the end of the empty key vector: the step, and the call when all factors
  before had one or two keys, ends in the out-of-range error.
\<close>

theorem splitGraph_arity_zero_out_of_range:
  assumes "\<forall>p\<in>set pre. length (keys p) = 1 \<or> length (keys p) = 2"
    and "keys f = []"
  shows "\<not> 2 < length (keys f) \<and> length (keys f) \<noteq> 1
       \<and> key_at (keys f) 0 = None \<and> key_at (keys f) 1 = None
       \<and> splitStep s f = Inl KeyIndexOutOfRange
       \<and> splitGraph (pre @ f # post) = Inl KeyIndexOutOfRange"
proof -
  have "splitLoop (dsf_empty, [], []) (pre @ f # post) = Inl KeyIndexOutOfRange"
    using splitLoop_first_bad[OF assms(1)] splitStep_empty_keys[OF assms(2)] by blast
  then show ?thesis
    using assms(2) splitStep_empty_keys[OF assms(2)]
    by (simp add: splitGraph_Inl key_at_def)
qed

theorem splitGraph_arity_zero_out_of_range_witness:
  "splitStep (dsf_empty, [], []) \<lparr>keys = [], payload = ()\<rparr> = Inl KeyIndexOutOfRange
   \<and> splitGraph ([\<lparr>keys = [1], payload = ()\<rparr>, \<lparr>keys = [1, 2], payload = ()\<rparr>]
                  @ \<lparr>keys = [], payload = ()\<rparr> # [\<lparr>keys = [2, 3], payload = ()\<rparr>])
       = Inl KeyIndexOutOfRange"
  using splitGraph_arity_zero_out_of_range[of
      "[\<lparr>keys = [1], payload = ()\<rparr>, \<lparr>keys = [1, 2], payload = ()\<rparr>]"
      "\<lparr>keys = [], payload = ()\<rparr>" "(dsf_empty, [], [])"
      "[\<lparr>keys = [2, 3], payload = ()\<rparr>]"]
  by simp

end
